theory Spec2Isabelle
  imports Complex_Main "HOL-Library.AList" "HOL-Library.Product_Lexorder"
begin

section \<open>Data model (gameobject.py, termgame.py)\<close>

text \<open>
  Grid positions are Python tuples \<open>(y, x)\<close> of unbounded integers. A game object is a
  Python object, so it is named by a reference; \<open>__new_game_object\<close> gives every object
  a fresh \<open>id\<close>, and the model uses that number as the reference. The heap maps each
  reference to the fields of the object that the simulation core reads or writes.
\<close>

type_synonym pos = "int \<times> int"
type_synonym ref = nat

text \<open>The dataclass \<open>Collision\<close> of gameobject.py with its five attributes.\<close>

record Collision =
  collider :: bool
  rigidbody :: bool
  layer :: int
  mass :: int
  fixed :: bool

text \<open>
  The fields of \<open>GameObject\<close> used by the core: \<open>position\<close> is \<open>None\<close> until the
  object is placed, \<open>collision\<close> is the collision profile.
\<close>

record GameObject =
  position :: "pos option"
  collision :: Collision

type_synonym heap = "ref \<Rightarrow> GameObject"

text \<open>The namedtuple \<open>Collision(layer, position, colliders)\<close> of termgame.py.\<close>

datatype CollisionNT =
  CollisionNT (nt_layer: int) (nt_position: "pos option") (colliders: "ref list")

section \<open>CollisionMap\<close>

text \<open>
  \<open>self.map = defaultdict(lambda: defaultdict(list))\<close>: a dict from layer to a dict from
  position to the list of objects there. Python dicts iterate in insertion order, so a
  dict is an association list; a key that is already present keeps its place and a new
  key goes to the end, which is what \<open>AList.update\<close> does. Reading \<open>d[k]\<close> of a
  defaultdict inserts the default under a missing key: \<open>dd_modify d f k\<close> is that
  access followed by the in-place change \<open>f\<close> of the value.
\<close>

type_synonym buckets = "(pos option \<times> ref list) list"
type_synonym cmap = "(int \<times> buckets) list"

definition dd_modify :: "'v \<Rightarrow> ('v \<Rightarrow> 'v) \<Rightarrow> 'k \<Rightarrow> ('k \<times> 'v) list \<Rightarrow> ('k \<times> 'v) list" where
  "dd_modify d f k al = AList.update k (f (case map_of al k of None \<Rightarrow> d | Some v \<Rightarrow> v)) al"

definition add_obj :: "int \<Rightarrow> pos option \<Rightarrow> ref \<Rightarrow> cmap \<Rightarrow> cmap" where
  "add_obj l p e m = dd_modify [] (dd_modify [] (\<lambda>xs. xs @ [e]) p) l m"

definition remove_obj :: "int \<Rightarrow> pos option \<Rightarrow> ref \<Rightarrow> cmap \<Rightarrow> cmap" where
  "remove_obj l p e m =
     dd_modify [] (dd_modify [] (\<lambda>xs. if e \<in> set xs then remove1 e xs else xs) p) l m"

text \<open>\<open>__iter__\<close>: every (layer, position, object list), layer by layer.\<close>

definition iterate :: "cmap \<Rightarrow> (int \<times> pos option \<times> ref list) list" where
  "iterate m = concat (map (\<lambda>(l, bs). map (\<lambda>(p, xs). (l, p, xs)) bs) m)"

text \<open>\<open>__detect_collisions\<close>: the buckets holding more than one object.\<close>

definition detect_collisions :: "cmap \<Rightarrow> CollisionNT list" where
  "detect_collisions m =
     map (\<lambda>(l, p, xs). CollisionNT l p xs) (filter (\<lambda>(l, p, xs). length xs > 1) (iterate m))"

text \<open>
  \<open>get_rb_collisions(layer=None, position=None, single=False)\<close>. The tests
  \<open>if specific_layer and ...\<close> and \<open>if specific_position and ...\<close> use Python truthiness:
  \<open>None\<close> and the integer \<open>0\<close> are false, a 2-tuple is true. \<open>rb_scan\<close> is the \<open>for\<close>
  loop over the detected collisions with the accumulator \<open>rigidbody_collisions\<close>; when
  the loop ends the function has no \<open>return\<close> statement, so it returns \<open>None\<close>.
\<close>

definition truthy_int :: "int option \<Rightarrow> bool" where
  "truthy_int v = (case v of None \<Rightarrow> False | Some n \<Rightarrow> n \<noteq> 0)"

fun rb_scan ::
  "heap \<Rightarrow> int option \<Rightarrow> pos option \<Rightarrow> bool \<Rightarrow> CollisionNT list \<Rightarrow> CollisionNT list
     \<Rightarrow> CollisionNT option" where
  "rb_scan h sl sp single acc [] = None"
| "rb_scan h sl sp single acc (c # cs) =
     (if truthy_int sl \<and> Some (nt_layer c) \<noteq> sl then rb_scan h sl sp single acc cs
      else if sp \<noteq> None \<and> nt_position c \<noteq> sp then rb_scan h sl sp single acc cs
      else
        (let rigidbody_colliders = filter (\<lambda>e. rigidbody (collision (h e))) (colliders c)
         in if length rigidbody_colliders > 1
            then (let rb_collision = CollisionNT (nt_layer c) (nt_position c) rigidbody_colliders
                  in if single then Some rb_collision
                     else rb_scan h sl sp single (acc @ [rb_collision]) cs)
            else rb_scan h sl sp single acc cs))"

definition get_rb_collisions ::
  "heap \<Rightarrow> cmap \<Rightarrow> int option \<Rightarrow> pos option \<Rightarrow> bool \<Rightarrow> CollisionNT option" where
  "get_rb_collisions h m sl sp single = rb_scan h sl sp single [] (detect_collisions m)"

section \<open>The game state\<close>

text \<open>
  The attributes of \<open>TermGame\<close> that the tick pipeline uses. \<open>active_objects\<close> is the
  dict from id to object; as the id is the reference, it is the list of its keys in
  insertion order. \<open>move_requests\<close> is the Python list of \<open>(game_obj, position)\<close>
  pairs. \<open>objects\<close> is the heap. \<open>frame_delay\<close> is a Python float and
  \<open>get_time_delta\<close> a float division; both are modelled with exact reals.
\<close>

record game =
  max_y :: int
  max_x :: int
  collision_map :: cmap
  now :: int
  last_frame_time :: "int option"
  frame_delay :: real
  next_game_obj_id :: nat
  active_objects :: "ref list"
  move_requests :: "(ref \<times> pos) list"
  objects :: heap

text \<open>
  \<open>GameObject.__init__\<close> leaves the position unset and gives the default profile
  \<open>Collision()\<close>. \<open>TermGame.__init__\<close> on a screen of \<open>rows\<close> by \<open>cols\<close> cells at
  the clock reading \<open>t\<close>; no object exists yet, so every reference of the initial heap
  stands for an object as its constructor leaves it.
\<close>

definition new_GameObject :: GameObject where
  "new_GameObject =
     \<lparr>position = None,
      collision = \<lparr>collider = False, rigidbody = False, layer = 0, mass = 1, fixed = False\<rparr>\<rparr>"

definition init :: "int \<Rightarrow> int \<Rightarrow> int \<Rightarrow> game" where
  "init rows cols t =
     \<lparr>max_y = rows - 1, max_x = cols - 1, collision_map = [], now = t,
      last_frame_time = None, frame_delay = 1 / 100, next_game_obj_id = 0,
      active_objects = [], move_requests = [], objects = (\<lambda>e. new_GameObject)\<rparr>"

text \<open>
  \<open>spawn_obj\<close>: the class found under the label decides the collision profile of the new
  object, so the profile stands for the label. The object gets the next id, enters
  \<open>active_objects\<close> and is added to the collision map whatever its profile says. The
  reference returned by the source is \<open>next_game_obj_id\<close> of the state before.
\<close>

definition spawn_obj :: "Collision \<Rightarrow> pos option \<Rightarrow> game \<Rightarrow> game" where
  "spawn_obj prof p g =
     g\<lparr>next_game_obj_id := next_game_obj_id g + 1,
       active_objects := active_objects g @ [next_game_obj_id g],
       objects := (objects g)(next_game_obj_id g := \<lparr>position = p, collision = prof\<rparr>),
       collision_map := add_obj (layer prof) p (next_game_obj_id g) (collision_map g)\<rparr>"

section \<open>Movement and rigidbody conflict resolution\<close>

text \<open>\<open>move\<close>: \<open>self.move_requests.append((game_obj, position))\<close>.\<close>

definition move :: "game \<Rightarrow> ref \<Rightarrow> pos \<Rightarrow> game" where
  "move g e p = g\<lparr>move_requests := move_requests g @ [(e, p)]\<rparr>"

text \<open>
  The first \<open>while\<close> loop of \<open>__move_objects\<close>: \<open>pop()\<close> takes the last request, the
  object leaves the bucket of its recorded position and enters the requested one.
\<close>

function drain :: "game \<Rightarrow> game" where
  "drain g =
     (if move_requests g = [] then g
      else drain
        (g\<lparr>move_requests := butlast (move_requests g),
           collision_map :=
             add_obj (layer (collision (objects g (fst (last (move_requests g))))))
               (Some (snd (last (move_requests g)))) (fst (last (move_requests g)))
               (remove_obj (layer (collision (objects g (fst (last (move_requests g))))))
                  (position (objects g (fst (last (move_requests g)))))
                  (fst (last (move_requests g))) (collision_map g))\<rparr>))"
  by pat_completeness auto
termination
  by (relation "measure (\<lambda>g. length (move_requests g))") auto

declare drain.simps [simp del]

text \<open>
  The first \<open>for\<close> loop of the resolution loop: every collider of the collision gets the
  other colliders appended to its entry of \<open>rigidbody_collisions\<close>, a
  \<open>defaultdict(list)\<close> keyed by id.
\<close>

type_synonym reports = "(ref \<times> ref list) list"

definition record_peers :: "CollisionNT \<Rightarrow> reports \<Rightarrow> reports" where
  "record_peers c rbc =
     fold (\<lambda>e acc. dd_modify [] (\<lambda>xs. xs @ remove1 e (colliders c)) e acc) (colliders c) rbc"

text \<open>
  The second \<open>for\<close> loop: the first collider whose recorded position differs from the
  position of the collision goes back to the bucket of its recorded position, and the
  loop breaks. The boolean is \<open>resolved\<close>.
\<close>

definition revert_first :: "heap \<Rightarrow> CollisionNT \<Rightarrow> cmap \<Rightarrow> bool \<times> cmap" where
  "revert_first h c m =
     (case List.find (\<lambda>e. position (h e) \<noteq> nt_position c) (colliders c) of
        None \<Rightarrow> (False, m)
      | Some e \<Rightarrow>
          (True, add_obj (nt_layer c) (position (h e)) e
                   (remove_obj (nt_layer c) (nt_position c) e m)))"

text \<open>
  The last two statements of the loop body: fetch the next collision, and drop it when it
  is in \<open>unresolvable\<close>.
\<close>

definition next_collision :: "heap \<Rightarrow> cmap \<Rightarrow> CollisionNT list \<Rightarrow> CollisionNT option" where
  "next_collision h m unresolvable =
     (case get_rb_collisions h m None None True of
        None \<Rightarrow> None
      | Some n \<Rightarrow> if n \<in> set unresolvable then None else Some n)"

text \<open>
  \<open>while collision:\<close> with the local variables \<open>collision\<close>, \<open>unresolvable\<close> and
  \<open>rigidbody_collisions\<close> and the collision map. Nothing bounds the loop in the source,
  so the model is a partial function: \<open>None\<close> is a loop that does not return.
\<close>

partial_function (option) resolve_loop ::
  "heap \<Rightarrow> CollisionNT option \<Rightarrow> CollisionNT list \<Rightarrow> reports \<Rightarrow> cmap
     \<Rightarrow> (cmap \<times> reports \<times> CollisionNT list) option" where
  "resolve_loop h cur unresolvable rbc m =
     (case cur of
        None \<Rightarrow> Some (m, rbc, unresolvable)
      | Some c \<Rightarrow>
          resolve_loop h
            (next_collision h (snd (revert_first h c m))
               (if fst (revert_first h c m) then unresolvable else unresolvable @ [c]))
            (if fst (revert_first h c m) then unresolvable else unresolvable @ [c])
            (record_peers c rbc)
            (snd (revert_first h c m)))"

declare resolve_loop.simps [code]

text \<open>
  After the loop every object found in a bucket gets the position of that bucket
  (\<open>game_obj.position = position\<close>); a later bucket overwrites an earlier one. The
  triples are those of \<open>__iter__\<close>: layer, position, object list.
\<close>

definition set_position :: "pos option \<Rightarrow> ref \<Rightarrow> heap \<Rightarrow> heap" where
  "set_position p e h = h(e := (h e)\<lparr>position := p\<rparr>)"

definition reconcile :: "cmap \<Rightarrow> heap \<Rightarrow> heap" where
  "reconcile m h = fold (\<lambda>t h1. fold (set_position (fst (snd t))) (snd (snd t)) h1) (iterate m) h"

text \<open>
  The last loop calls \<open>on_rigidbody_collision(colliders)\<close> on every id of
  \<open>rigidbody_collisions\<close> that \<open>active_objects.get\<close> finds. The model returns the list
  of these calls, each as the id and its argument.
\<close>

definition notifications :: "ref list \<Rightarrow> reports \<Rightarrow> reports" where
  "notifications active rbc = filter (\<lambda>(i, cs). i \<in> set active) rbc"

text \<open>\<open>__move_objects\<close>: the new game state and the notifications sent.\<close>

definition move_objects :: "game \<Rightarrow> (game \<times> reports) option" where
  "move_objects g =
     (if move_requests g = [] then Some (g, [])
      else
        (case resolve_loop (objects (drain g))
                (get_rb_collisions (objects (drain g)) (collision_map (drain g)) None None True)
                [] [] (collision_map (drain g)) of
           None \<Rightarrow> None
         | Some (m, rbc, unresolvable) \<Rightarrow>
             Some ((drain g)\<lparr>collision_map := m, objects := reconcile m (objects (drain g))\<rparr>,
                   notifications (active_objects (drain g)) rbc)))"

section \<open>Frame pacing\<close>

text \<open>\<open>get_time_delta\<close>: nanoseconds since \<open>then\<close>, in seconds.\<close>

definition get_time_delta :: "game \<Rightarrow> int \<Rightarrow> real" where
  "get_time_delta g t = real_of_int (now g - t) / 1000000000"

text \<open>
  \<open>__ready_for_next_frame\<close>: \<open>not self.last_frame_time\<close> holds for \<open>None\<close> and for
  \<open>0\<close>; when neither \<open>if\<close> fires the function returns \<open>None\<close>, which is false.
\<close>

definition ready_for_next_frame :: "game \<Rightarrow> bool" where
  "ready_for_next_frame g =
     (case last_frame_time g of
        None \<Rightarrow> True
      | Some t \<Rightarrow> if t = 0 then True else get_time_delta g t > frame_delay g)"

text \<open>
  \<open>__draw_game_objects\<close> builds a new collision map from the active objects whose
  profile has \<open>collider\<close> set; painting the screen is outside the model.
\<close>

definition draw_game_objects :: "game \<Rightarrow> game" where
  "draw_game_objects g =
     g\<lparr>collision_map :=
         fold (\<lambda>e m. if collider (collision (objects g e))
                      then add_obj (layer (collision (objects g e))) (position (objects g e)) e m
                      else m)
           (active_objects g) []\<rparr>"

text \<open>\<open>__draw_frame\<close>: the new state, and whether a frame was drawn.\<close>

definition draw_frame :: "game \<Rightarrow> game \<times> bool" where
  "draw_frame g = (if ready_for_next_frame g then (draw_game_objects g, True) else (g, False))"

text \<open>
  \<open>__loop\<close>: one iteration at the clock reading \<open>t\<close>. Input dispatch and the objects'
  \<open>update\<close> methods belong to the game built on the engine; \<open>upd\<close> is their effect on
  the state. The result is the new state and whether this iteration drew a frame.
\<close>

definition loop :: "(game \<Rightarrow> game) \<Rightarrow> int \<Rightarrow> game \<Rightarrow> (game \<times> bool) option" where
  "loop upd t g =
     (case move_objects (upd (g\<lparr>now := t\<rparr>)) of
        None \<Rightarrow> None
      | Some (g1, notes) \<Rightarrow> Some (draw_frame g1))"

section \<open>Pathfinding\<close>

datatype error = KeyError | TypeError

definition get_neighbors :: "pos \<Rightarrow> int \<Rightarrow> int \<Rightarrow> pos list" where
  "get_neighbors p my mx =
     (case p of (y, x) \<Rightarrow>
        filter (\<lambda>n. \<not> (fst n < 0 \<or> fst n > my) \<and> \<not> (snd n < 0 \<or> snd n > mx))
          [(y + 1, x), (y - 1, x), (y, x + 1), (y, x - 1)])"

text \<open>
  \<open>frontier\<close> is a \<open>queue.PriorityQueue\<close>. Its method is \<open>put(item, block, timeout)\<close>,
  so in \<open>frontier.put(neighbor, priority)\<close> the second argument is the \<open>block\<close> flag
  and the queue (unbounded, so the flag has no effect) orders the positions themselves:
  \<open>get()\<close> returns the least tuple in Python's lexicographic order. The queue is modelled
  as the list of its items; \<open>get\<close> takes out the least one.

  \<open>relax_all\<close> is the \<open>for\<close> loop over the neighbours of \<open>current\<close>; the state is
  \<open>frontier\<close>, \<open>came_from\<close> and \<open>cost_so_far\<close>. \<open>cost_so_far[current]\<close> raises
  \<open>KeyError\<close> on a missing key.
\<close>

type_synonym search_state = "pos list \<times> (pos \<rightharpoonup> pos option) \<times> (pos \<rightharpoonup> int)"

fun relax_all :: "pos \<Rightarrow> pos list \<Rightarrow> search_state \<Rightarrow> error + search_state" where
  "relax_all current [] st = Inr st"
| "relax_all current (n # ns) (frontier, came_from, cost_so_far) =
     (case cost_so_far current of
        None \<Rightarrow> Inl KeyError
      | Some c \<Rightarrow>
          (if (case cost_so_far n of None \<Rightarrow> True | Some old \<Rightarrow> c + 1 < old)
           then relax_all current ns
                  (frontier @ [n], came_from(n \<mapsto> Some current), cost_so_far(n \<mapsto> c + 1))
           else relax_all current ns (frontier, came_from, cost_so_far)))"

text \<open>\<open>while not frontier.empty()\<close>: returns \<open>came_from\<close>.\<close>

partial_function (option) search ::
  "int \<Rightarrow> int \<Rightarrow> pos \<Rightarrow> search_state \<Rightarrow> (error + (pos \<rightharpoonup> pos option)) option" where
  "search my mx target st =
     (if fst st = [] then Some (Inr (fst (snd st)))
      else if min_list (fst st) = target then Some (Inr (fst (snd st)))
      else
        (case relax_all (min_list (fst st)) (get_neighbors (min_list (fst st)) my mx)
                (remove1 (min_list (fst st)) (fst st), snd st) of
           Inl er \<Rightarrow> Some (Inl er)
         | Inr st1 \<Rightarrow> search my mx target st1))"

declare search.simps [code]

text \<open>
  \<open>while current != game_obj.position\<close>: \<open>current\<close> is a position or the \<open>None\<close> stored
  for the start; \<open>came_from[current]\<close> raises \<open>KeyError\<close> on a position that the search
  never reached, and on \<open>None\<close>. The path is reversed at the end.
\<close>

partial_function (option) trace_back ::
  "pos \<Rightarrow> (pos \<rightharpoonup> pos option) \<Rightarrow> pos option \<Rightarrow> pos list \<Rightarrow> (error + pos list) option" where
  "trace_back start came_from current path =
     (case current of
        None \<Rightarrow> Some (Inl KeyError)
      | Some c \<Rightarrow>
          if c = start then Some (Inr (rev path))
          else (case came_from c of
                  None \<Rightarrow> Some (Inl KeyError)
                | Some nxt \<Rightarrow> trace_back start came_from nxt (path @ [c])))"

declare trace_back.simps [code]

text \<open>
  \<open>pathfind(game_obj, target_position)\<close>. An object without a position fails in
  \<open>get_neighbors\<close>, which unpacks \<open>None\<close>.
\<close>

definition pathfind :: "game \<Rightarrow> ref \<Rightarrow> pos \<Rightarrow> (error + pos list) option" where
  "pathfind g e target =
     (case position (objects g e) of
        None \<Rightarrow> Some (Inl TypeError)
      | Some start \<Rightarrow>
          (case search (max_y g) (max_x g) target
                  ([start], [start \<mapsto> None], [start \<mapsto> 0]) of
             None \<Rightarrow> None
           | Some (Inl er) \<Rightarrow> Some (Inl er)
           | Some (Inr came_from) \<Rightarrow> trace_back start came_from (Some target) []))"

section \<open>Notions used in the statements\<close>

text \<open>
  A Python dict holds each key once: an association list stands for a collision map only
  when no layer and, within a layer, no position occurs twice.
\<close>

definition wf_cmap :: "cmap \<Rightarrow> bool" where
  "wf_cmap m = (distinct (map fst m) \<and> list_all (\<lambda>lb. distinct (map fst (snd lb))) m)"

text \<open>The objects in the bucket of a layer and position; empty when there is none.\<close>

definition bucket :: "cmap \<Rightarrow> int \<Rightarrow> pos option \<Rightarrow> ref list" where
  "bucket m l p =
     (case map_of m l of
        None \<Rightarrow> []
      | Some bs \<Rightarrow> (case map_of bs p of None \<Rightarrow> [] | Some xs \<Rightarrow> xs))"

text \<open>The (layer, position) keys of the buckets in which an object occurs.\<close>

definition buckets_holding :: "cmap \<Rightarrow> ref \<Rightarrow> (int \<times> pos option) list" where
  "buckets_holding m e =
     map (\<lambda>(l, p, xs). (l, p)) (filter (\<lambda>(l, p, xs). e \<in> set xs) (iterate m))"

text \<open>
  An object occurs once in the collision map, in the bucket of layer \<open>l\<close> and position
  \<open>p\<close>: once in that bucket and not at all in the bucket of any other key.
\<close>

definition occurs_once :: "cmap \<Rightarrow> ref \<Rightarrow> int \<Rightarrow> pos option \<Rightarrow> bool" where
  "occurs_once m e l p =
     (\<forall>l1 p1. count_list (bucket m l1 p1) e = (if l1 = l \<and> p1 = p then 1 else 0))"

text \<open>
  The number of entries of the collision map that sit in a bucket other than the one of
  the recorded position of the object: the measure of the resolution loop.
\<close>

definition misplaced :: "heap \<Rightarrow> pos option \<Rightarrow> ref list \<Rightarrow> nat" where
  "misplaced h p xs = length (filter (\<lambda>e. position (h e) \<noteq> p) xs)"

definition displaced_layer :: "heap \<Rightarrow> buckets \<Rightarrow> nat" where
  "displaced_layer h bs = sum_list (map (\<lambda>pb. misplaced h (fst pb) (snd pb)) bs)"

definition displaced :: "heap \<Rightarrow> cmap \<Rightarrow> nat" where
  "displaced h m = sum_list (map (\<lambda>lb. displaced_layer h (snd lb)) m)"

text \<open>
  The drain phase in the words of the specification: one request takes the object out of
  the bucket of its recorded position and puts it into the requested bucket, and the
  requests are applied from the last queued to the first.
\<close>

definition apply_request :: "heap \<Rightarrow> cmap \<Rightarrow> ref \<times> pos \<Rightarrow> cmap" where
  "apply_request h m r =
     add_obj (layer (collision (h (fst r)))) (Some (snd r)) (fst r)
       (remove_obj (layer (collision (h (fst r)))) (position (h (fst r))) (fst r) m)"

definition drain_spec :: "game \<Rightarrow> game" where
  "drain_spec g =
     g\<lparr>move_requests := [],
       collision_map := foldl (apply_request (objects g)) (collision_map g) (rev (move_requests g))\<rparr>"

text \<open>
  The cells within bounds, and the invariant and the measure of the search loop: the
  frontier holds positions with a cost, every position with a cost or a predecessor lies
  in a finite set \<open>K\<close>, and no cost is negative. An iteration of the loop lowers, in
  lexicographic order, the number of positions of \<open>K\<close> without a cost, the sum of the
  costs, and the length of the frontier.
\<close>

definition grid :: "int \<Rightarrow> int \<Rightarrow> pos set" where
  "grid my mx = {0..my} \<times> {0..mx}"

definition search_inv :: "pos set \<Rightarrow> search_state \<Rightarrow> bool" where
  "search_inv K st =
     (set (fst st) \<subseteq> dom (snd (snd st)) \<and> dom (snd (snd st)) \<subseteq> K \<and> dom (fst (snd st)) \<subseteq> K
      \<and> (\<forall>k c. snd (snd st) k = Some c \<longrightarrow> 0 \<le> c))"

definition unseen :: "pos set \<Rightarrow> (pos \<rightharpoonup> int) \<Rightarrow> nat" where
  "unseen K cs = card (K - dom cs)"

definition cost_sum :: "pos set \<Rightarrow> (pos \<rightharpoonup> int) \<Rightarrow> nat" where
  "cost_sum K cs = (\<Sum>k\<in>K. case cs k of None \<Rightarrow> 0 | Some c \<Rightarrow> nat c)"

definition search_measure :: "pos set \<Rightarrow> search_state \<Rightarrow> nat \<times> nat \<times> nat" where
  "search_measure K st = (unseen K (snd (snd st)), cost_sum K (snd (snd st)), length (fst st))"

text \<open>Profiles of the objects in the examples.\<close>

definition rigid :: Collision where
  "rigid = \<lparr>collider = True, rigidbody = True, layer = 0, mass = 1, fixed = False\<rparr>"

definition soft :: Collision where
  "soft = \<lparr>collider = True, rigidbody = False, layer = 0, mass = 1, fixed = False\<rparr>"

text \<open>
  Example states, each built from \<open>init\<close> by calls of the engine: two rigidbodies
  spawned on one cell; the same with a third object that asks to move; one object with
  two queued requests; two rigidbodies on one cell of layer 1; two pairs of rigidbodies,
  each pair on one cell, with a fifth object that asks to move; a rigidbody that asks for
  the cell of another; and an object with the default profile after a frame was drawn,
  when the rebuilt collision map does not hold it.
\<close>

definition two_rigid :: game where
  "two_rigid = spawn_obj rigid (Some (0, 0)) (spawn_obj rigid (Some (0, 0)) (init 10 10 0))"

definition pair_and_mover :: game where
  "pair_and_mover = move (spawn_obj soft (Some (3, 3)) two_rigid) 2 (4, 4)"

definition twice_requested :: game where
  "twice_requested =
     move (move (spawn_obj soft (Some (0, 0)) (init 10 10 0)) 0 (1, 1)) 0 (2, 2)"

definition two_rigid_layer1 :: game where
  "two_rigid_layer1 =
     spawn_obj (rigid\<lparr>layer := 1\<rparr>) (Some (0, 0))
       (spawn_obj (rigid\<lparr>layer := 1\<rparr>) (Some (0, 0)) (init 10 10 0))"




section \<open>Properties of the collision map\<close>

lemma rb_scan_not_single: "rb_scan h sl sp False acc cs = None"
  by (induction cs arbitrary: acc) (simp_all add: Let_def)

lemma rb_scan_layer_zero:
  "rb_scan h (Some 0) sp single acc cs = rb_scan h None sp single acc cs"
  by (induction cs arbitrary: acc) (simp_all add: truthy_int_def Let_def rb_scan_not_single)

lemma sum_list_update:
  fixes g :: "'k \<times> 'v \<Rightarrow> nat"
  shows "sum_list (map g (AList.update k v al))
           + (case map_of al k of None \<Rightarrow> 0 | Some w \<Rightarrow> g (k, w))
         = sum_list (map g al) + g (k, v)"
  by (induction al) auto

lemma set_update_subset: "set (AList.update k v al) \<subseteq> insert (k, v) (set al)"
  by (induction al) auto

lemma distinct_dd_modify:
  "distinct (map fst al) \<Longrightarrow> distinct (map fst (dd_modify d f k al))"
  by (simp add: dd_modify_def distinct_update)

lemma wf_cmap_modify:
  assumes "wf_cmap m"
  shows "wf_cmap (dd_modify [] (dd_modify [] f p) l m)"
proof -
  let ?old = "case map_of m l of None \<Rightarrow> [] | Some bs \<Rightarrow> bs"
  have old: "distinct (map fst ?old)"
    using assms by (auto simp: wf_cmap_def list_all_iff split: option.splits dest!: map_of_SomeD)
  have "\<forall>lb \<in> set (dd_modify [] (dd_modify [] f p) l m). distinct (map fst (snd lb))"
  proof
    fix lb assume "lb \<in> set (dd_modify [] (dd_modify [] f p) l m)"
    then have "lb = (l, dd_modify [] f p ?old) \<or> lb \<in> set m"
      using set_update_subset[of l "dd_modify [] f p ?old" m] by (auto simp: dd_modify_def)
    then show "distinct (map fst (snd lb))"
      using old assms by (auto simp: distinct_dd_modify wf_cmap_def list_all_iff)
  qed
  then show ?thesis
    using assms by (simp add: wf_cmap_def list_all_iff distinct_dd_modify)
qed

lemma wf_cmap_add_obj: "wf_cmap m \<Longrightarrow> wf_cmap (add_obj l p e m)"
  by (simp add: add_obj_def wf_cmap_modify)

lemma wf_cmap_remove_obj: "wf_cmap m \<Longrightarrow> wf_cmap (remove_obj l p e m)"
  by (simp add: remove_obj_def wf_cmap_modify)

lemma displaced_layer_modify:
  "displaced_layer h (dd_modify [] f p bs)
     + misplaced h p (case map_of bs p of None \<Rightarrow> [] | Some xs \<Rightarrow> xs)
   = displaced_layer h bs
     + misplaced h p (f (case map_of bs p of None \<Rightarrow> [] | Some xs \<Rightarrow> xs))"
  using sum_list_update[of "\<lambda>pb. misplaced h (fst pb) (snd pb)" p _ bs]
  by (auto simp: displaced_layer_def dd_modify_def misplaced_def split: option.splits)

lemma displaced_modify:
  "displaced h (dd_modify [] (dd_modify [] f p) l m) + misplaced h p (bucket m l p)
   = displaced h m + misplaced h p (f (bucket m l p))"
proof -
  let ?old = "case map_of m l of None \<Rightarrow> [] | Some bs \<Rightarrow> bs"
  have a: "displaced h (dd_modify [] (dd_modify [] f p) l m) + displaced_layer h ?old
        = displaced h m + displaced_layer h (dd_modify [] f p ?old)"
    using sum_list_update[of "\<lambda>lb. displaced_layer h (snd lb)" l _ m]
    by (auto simp: displaced_def dd_modify_def displaced_layer_def split: option.splits)
  have b: "bucket m l p = (case map_of ?old p of None \<Rightarrow> [] | Some xs \<Rightarrow> xs)"
    by (simp add: bucket_def split: option.splits)
  show ?thesis
    using a displaced_layer_modify[of h f p ?old] by (simp add: b)
qed

lemma displaced_add_obj_home:
  "displaced h (add_obj l (position (h e)) e m) = displaced h m"
  using displaced_modify[of h "\<lambda>xs. xs @ [e]" "position (h e)" l m]
  by (simp add: add_obj_def misplaced_def)

lemma misplaced_remove1:
  "e \<in> set xs \<Longrightarrow> position (h e) \<noteq> p \<Longrightarrow> Suc (misplaced h p (remove1 e xs)) = misplaced h p xs"
  by (induction xs) (auto simp: misplaced_def)

lemma displaced_remove_obj:
  assumes "e \<in> set (bucket m l p)" "position (h e) \<noteq> p"
  shows "Suc (displaced h (remove_obj l p e m)) = displaced h m"
  using displaced_modify[of h "\<lambda>xs. if e \<in> set xs then remove1 e xs else xs" p l m]
    misplaced_remove1[of e "bucket m l p" h p] assms
  by (simp add: remove_obj_def)

lemma rb_scan_single_Some:
  "rb_scan h None None True acc cs = Some c \<Longrightarrow>
     \<exists>c0 \<in> set cs. c = CollisionNT (nt_layer c0) (nt_position c0)
                         (filter (\<lambda>e. rigidbody (collision (h e))) (colliders c0))
                \<and> length (colliders c) > 1"
  by (induction cs) (auto simp: Let_def truthy_int_def split: if_splits)

lemma iterate_bucket:
  assumes "wf_cmap m" "(l, p, xs) \<in> set (iterate m)"
  shows "bucket m l p = xs"
proof -
  from assms(2) obtain bs where bs: "(l, bs) \<in> set m" "(p, xs) \<in> set bs"
    by (auto simp: iterate_def)
  from assms(1) bs have "map_of m l = Some bs" "map_of bs p = Some xs"
    by (auto simp: wf_cmap_def list_all_iff)
  then show ?thesis by (simp add: bucket_def)
qed

lemma get_rb_collisions_bucket:
  assumes "wf_cmap m" "get_rb_collisions h m None None True = Some c"
  shows "colliders c = filter (\<lambda>e. rigidbody (collision (h e))) (bucket m (nt_layer c) (nt_position c))"
    and "length (colliders c) > 1"
proof -
  from assms(2) obtain c0 where c0: "c0 \<in> set (detect_collisions m)"
      "c = CollisionNT (nt_layer c0) (nt_position c0)
             (filter (\<lambda>e. rigidbody (collision (h e))) (colliders c0))"
      "length (colliders c) > 1"
    unfolding get_rb_collisions_def by (blast dest: rb_scan_single_Some)
  from c0(1) have "(nt_layer c0, nt_position c0, colliders c0) \<in> set (iterate m)"
    by (auto simp: detect_collisions_def)
  with assms(1) have "bucket m (nt_layer c0) (nt_position c0) = colliders c0"
    by (rule iterate_bucket)
  with c0 show "colliders c = filter (\<lambda>e. rigidbody (collision (h e))) (bucket m (nt_layer c) (nt_position c))"
    and "length (colliders c) > 1" by simp_all
qed

lemma revert_first_False: "\<not> fst (revert_first h c m) \<Longrightarrow> snd (revert_first h c m) = m"
  by (simp add: revert_first_def split: option.splits)

lemma revert_first_True:
  assumes "wf_cmap m" "get_rb_collisions h m None None True = Some c" "fst (revert_first h c m)"
  shows "Suc (displaced h (snd (revert_first h c m))) = displaced h m"
    and "wf_cmap (snd (revert_first h c m))"
proof -
  from assms(3) obtain e where e:
      "List.find (\<lambda>e. position (h e) \<noteq> nt_position c) (colliders c) = Some e"
    by (auto simp: revert_first_def split: option.splits)
  then have m': "snd (revert_first h c m) =
      add_obj (nt_layer c) (position (h e)) e (remove_obj (nt_layer c) (nt_position c) e m)"
    by (simp add: revert_first_def)
  from e have "e \<in> set (colliders c)" "position (h e) \<noteq> nt_position c"
    by (auto simp: find_Some_iff)
  with get_rb_collisions_bucket(1)[OF assms(1,2)]
  have "e \<in> set (bucket m (nt_layer c) (nt_position c))" by simp
  then have "Suc (displaced h (remove_obj (nt_layer c) (nt_position c) e m)) = displaced h m"
    using \<open>position (h e) \<noteq> nt_position c\<close> by (rule displaced_remove_obj)
  then show "Suc (displaced h (snd (revert_first h c m))) = displaced h m"
    by (simp add: m' displaced_add_obj_home)
  show "wf_cmap (snd (revert_first h c m))"
    by (simp add: m' wf_cmap_add_obj wf_cmap_remove_obj assms(1))
qed

lemma resolve_loop_returns:
  "wf_cmap m \<Longrightarrow> \<exists>r. resolve_loop h (next_collision h m unresolvable) unresolvable rbc m = Some r"
proof (induction "displaced h m" arbitrary: m unresolvable rbc rule: less_induct)
  case less
  show ?case
  proof (cases "next_collision h m unresolvable")
    case None
    then show ?thesis by (simp add: resolve_loop.simps)
  next
    case (Some c)
    then have c: "get_rb_collisions h m None None True = Some c"
      by (auto simp: next_collision_def split: option.splits if_splits)
    show ?thesis
    proof (cases "fst (revert_first h c m)")
      case True
      from revert_first_True[OF less.prems c True]
      have "displaced h (snd (revert_first h c m)) < displaced h m"
        and "wf_cmap (snd (revert_first h c m))" by simp_all
      from less.hyps[OF this]
      show ?thesis
        by (subst resolve_loop.simps) (simp add: Some True)
    next
      case False
      then have same: "snd (revert_first h c m) = m" by (rule revert_first_False)
      have stop: "next_collision h m (unresolvable @ [c]) = None"
        by (simp add: next_collision_def c)
      show ?thesis
        by (subst resolve_loop.simps) (simp add: Some False same stop resolve_loop.simps)
    qed
  qed
qed

lemma next_collision_Nil: "next_collision h m [] = get_rb_collisions h m None None True"
  by (simp add: next_collision_def split: option.splits)

lemma wf_cmap_drain: "wf_cmap (collision_map g) \<Longrightarrow> wf_cmap (collision_map (drain g))"
proof (induction g rule: drain.induct)
  case (1 g)
  show ?case
  proof (cases "move_requests g = []")
    case True
    with 1 show ?thesis by (subst drain.simps) simp
  next
    case False
    with 1 show ?thesis
      by (subst drain.simps) (simp add: wf_cmap_add_obj wf_cmap_remove_obj)
  qed
qed

lemma move_objects_returns:
  "wf_cmap (collision_map g) \<Longrightarrow> \<exists>r. move_objects g = Some r"
  using resolve_loop_returns[OF wf_cmap_drain, of g "objects (drain g)" "[]" "[]"]
  by (auto simp: move_objects_def next_collision_Nil split: option.splits)


section \<open>Properties of the drain phase and of the tick\<close>

lemma drain_fold: "drain g = drain_spec g"
proof (induction "move_requests g" arbitrary: g rule: rev_induct)
  case Nil
  then show ?case by (subst drain.simps) (simp add: drain_spec_def)
next
  case (snoc r rs)
  let ?g1 = "g\<lparr>move_requests := rs,
      collision_map := apply_request (objects g) (collision_map g) r\<rparr>"
  have "rs = move_requests ?g1" by simp
  then have ih: "drain ?g1 = drain_spec ?g1" by (rule snoc.hyps)
  have "drain g = drain ?g1"
    using snoc.hyps(2)[symmetric] by (subst drain.simps) (simp add: apply_request_def)
  also have "\<dots> = drain_spec g"
    using snoc.hyps(2)[symmetric] by (simp add: ih drain_spec_def)
  finally show ?case .
qed

lemma last_frame_time_drain: "last_frame_time (drain g) = last_frame_time g"
  by (simp add: drain_fold drain_spec_def)

lemma last_frame_time_move_objects:
  "move_objects g = Some (g1, notes) \<Longrightarrow> last_frame_time g1 = last_frame_time g"
  by (auto simp: move_objects_def last_frame_time_drain split: if_splits option.splits)


section \<open>Invariants of the resolution loop\<close>

lemma bucket_modify:
  "bucket (dd_modify [] (dd_modify [] f p) l m) l1 p1
     = (if l1 = l \<and> p1 = p then f (bucket m l p) else bucket m l1 p1)"
  by (auto simp: bucket_def dd_modify_def update_conv' split: option.splits)

lemma count_list_remove1:
  "count_list (remove1 x xs) e = (if x = e then count_list xs e - 1 else count_list xs e)"
  by (induction xs) auto

lemma count_bucket_add_obj:
  "count_list (bucket (add_obj l p x m) l1 p1) e
     = count_list (bucket m l1 p1) e + (if l1 = l \<and> p1 = p \<and> x = e then 1 else 0)"
  by (simp add: add_obj_def bucket_modify)

lemma count_bucket_remove_obj:
  "count_list (bucket (remove_obj l p x m) l1 p1) e
     = count_list (bucket m l1 p1) e - (if l1 = l \<and> p1 = p \<and> x = e then 1 else 0)"
  by (simp add: remove_obj_def bucket_modify count_list_remove1 count_list_0_iff)

lemma occurs_once_relocate:
  "occurs_once m e l p \<Longrightarrow> occurs_once (add_obj l q e (remove_obj l p e m)) e l q"
  by (simp add: occurs_once_def count_bucket_add_obj count_bucket_remove_obj)

lemma occurs_once_other:
  "x \<noteq> e \<Longrightarrow> occurs_once m e l p \<Longrightarrow> occurs_once (add_obj l1 q x (remove_obj l2 p2 x m)) e l p"
  by (simp add: occurs_once_def count_bucket_add_obj count_bucket_remove_obj)

lemma next_collision_Some:
  "next_collision h m u = Some n \<Longrightarrow> get_rb_collisions h m None None True = Some n"
  by (auto simp: next_collision_def split: option.splits if_splits)

lemma resolve_loop_invariant:
  assumes run: "resolve_loop h cur unresolvable rbc m = Some r"
    and inv: "Inv m rbc"
    and cur: "\<forall>c. cur = Some c \<longrightarrow> get_rb_collisions h m None None True = Some c"
    and step: "\<And>m1 rbc1 c. Inv m1 rbc1 \<Longrightarrow> get_rb_collisions h m1 None None True = Some c
                 \<Longrightarrow> Inv (snd (revert_first h c m1)) (record_peers c rbc1)"
  shows "Inv (fst r) (fst (snd r))"
proof -
  let ?P = "\<lambda>h1 cur1 (u1 :: CollisionNT list) rbc1 m1 r1.
      h1 = h \<longrightarrow> Inv m1 rbc1 \<longrightarrow>
      (\<forall>c. cur1 = Some c \<longrightarrow> get_rb_collisions h m1 None None True = Some c) \<longrightarrow>
      Inv (fst r1) (fst (snd r1))"
  have "?P h cur unresolvable rbc m r"
  proof (rule resolve_loop.raw_induct[where P = ?P, OF _ run])
    fix loop h1 cur1 u1 rbc1 m1 r1
    assume IH: "\<And>h2 cur2 u2 rbc2 m2 r2. loop h2 cur2 u2 rbc2 m2 = Some r2 \<Longrightarrow> ?P h2 cur2 u2 rbc2 m2 r2"
      and body: "(case cur1 of
          None \<Rightarrow> Some (m1, rbc1, u1)
        | Some c \<Rightarrow>
            loop h1
              (next_collision h1 (snd (revert_first h1 c m1))
                 (if fst (revert_first h1 c m1) then u1 else u1 @ [c]))
              (if fst (revert_first h1 c m1) then u1 else u1 @ [c])
              (record_peers c rbc1)
              (snd (revert_first h1 c m1))) = Some r1"
    show "?P h1 cur1 u1 rbc1 m1 r1"
    proof (intro impI)
      assume h1: "h1 = h" and i: "Inv m1 rbc1"
        and c1: "\<forall>c. cur1 = Some c \<longrightarrow> get_rb_collisions h m1 None None True = Some c"
      show "Inv (fst r1) (fst (snd r1))"
      proof (cases cur1)
        case None
        with body i show ?thesis by auto
      next
        case (Some c)
        from c1 Some have g: "get_rb_collisions h m1 None None True = Some c" by simp
        let ?m = "snd (revert_first h c m1)"
        let ?u = "if fst (revert_first h c m1) then u1 else u1 @ [c]"
        from body Some h1
        have call: "loop h (next_collision h ?m ?u) ?u (record_peers c rbc1) ?m = Some r1"
          by simp
        from IH[OF call] step[OF i g] next_collision_Some show ?thesis by blast
      qed
    qed
  qed
  with inv cur show ?thesis by blast
qed



lemma occurs_once_apply_other:
  "fst r \<noteq> e \<Longrightarrow> occurs_once m e l p \<Longrightarrow> occurs_once (apply_request h m r) e l p"
  by (simp add: apply_request_def occurs_once_other)

lemma occurs_once_apply_self:
  "fst r = e \<Longrightarrow> occurs_once m e (layer (collision (h e))) (position (h e)) \<Longrightarrow>
     occurs_once (apply_request h m r) e (layer (collision (h e))) (Some (snd r))"
  by (auto simp: apply_request_def occurs_once_relocate)

lemma occurs_once_foldl_other:
  "e \<notin> fst ` set rs \<Longrightarrow> occurs_once m e l p \<Longrightarrow>
     occurs_once (foldl (apply_request h) m rs) e l p"
  by (induction rs arbitrary: m) (auto simp: occurs_once_apply_other)

lemma occurs_once_foldl:
  "distinct (map fst rs) \<Longrightarrow> occurs_once m e (layer (collision (h e))) (position (h e)) \<Longrightarrow>
     \<exists>p. occurs_once (foldl (apply_request h) m rs) e (layer (collision (h e))) p"
proof (induction rs arbitrary: m)
  case Nil
  then show ?case by auto
next
  case (Cons r rs)
  show ?case
  proof (cases "fst r = e")
    case True
    with Cons.prems have "e \<notin> fst ` set rs" by auto
    moreover have "occurs_once (apply_request h m r) e (layer (collision (h e))) (Some (snd r))"
      using True Cons.prems(2) by (rule occurs_once_apply_self)
    ultimately have "occurs_once (foldl (apply_request h) (apply_request h m r) rs) e
        (layer (collision (h e))) (Some (snd r))"
      by (rule occurs_once_foldl_other)
    then show ?thesis by auto
  next
    case False
    have "occurs_once (apply_request h m r) e (layer (collision (h e))) (position (h e))"
      using False Cons.prems(2) by (rule occurs_once_apply_other)
    with Cons.prems(1) Cons.IH show ?thesis by simp
  qed
qed

lemma occurs_once_in_bucket:
  "occurs_once m e l p \<Longrightarrow> e \<in> set (bucket m l1 p1) \<longleftrightarrow> l1 = l \<and> p1 = p"
proof -
  assume "occurs_once m e l p"
  then have "count_list (bucket m l1 p1) e = (if l1 = l \<and> p1 = p then 1 else 0)"
    by (simp add: occurs_once_def)
  then show ?thesis
    using count_list_0_iff[of "bucket m l1 p1" e] by (auto split: if_splits)
qed

lemma occurs_once_revert_first:
  assumes "wf_cmap m" "get_rb_collisions h m None None True = Some c"
    and "occurs_once m e l p"
  shows "\<exists>q. occurs_once (snd (revert_first h c m)) e l q"
proof (cases "List.find (\<lambda>x. position (h x) \<noteq> nt_position c) (colliders c)")
  case None
  with assms(3) show ?thesis by (auto simp: revert_first_def)
next
  case (Some x)
  then have m1: "snd (revert_first h c m) =
      add_obj (nt_layer c) (position (h x)) x (remove_obj (nt_layer c) (nt_position c) x m)"
    by (simp add: revert_first_def)
  show ?thesis
  proof (cases "x = e")
    case False
    then have "occurs_once (snd (revert_first h c m)) e l p"
      unfolding m1 using assms(3) by (rule occurs_once_other)
    then show ?thesis by blast
  next
    case True
    from Some have "x \<in> set (colliders c)" by (auto simp: find_Some_iff)
    with get_rb_collisions_bucket(1)[OF assms(1,2)] True
    have "e \<in> set (bucket m (nt_layer c) (nt_position c))" by simp
    with assms(3) have "nt_layer c = l" "nt_position c = p"
      by (simp_all add: occurs_once_in_bucket)
    with assms(3) True have "occurs_once (snd (revert_first h c m)) e l (position (h e))"
      by (simp add: m1 occurs_once_relocate)
    then show ?thesis by blast
  qed
qed

lemma wf_cmap_revert_first: "wf_cmap m \<Longrightarrow> wf_cmap (snd (revert_first h c m))"
  by (simp add: revert_first_def wf_cmap_add_obj wf_cmap_remove_obj split: option.splits)

lemma reconcile_bucket_position:
  "position (fold (set_position q) xs h e) = (if e \<in> set xs then q else position (h e))"
  by (induction xs arbitrary: h) (auto simp: set_position_def)

lemma reconcile_bucket_collision:
  "collision (fold (set_position q) xs h e) = collision (h e)"
  by (induction xs arbitrary: h) (auto simp: set_position_def)

lemma reconcile_collision: "collision (reconcile m h e) = collision (h e)"
proof -
  have "collision (fold (\<lambda>t h1. fold (set_position (fst (snd t))) (snd (snd t)) h1) ts h e)
      = collision (h e)" for ts :: "(int \<times> pos option \<times> ref list) list"
    by (induction ts arbitrary: h) (simp_all add: reconcile_bucket_collision)
  then show ?thesis by (simp add: reconcile_def)
qed

lemma reconcile_position_aux:
  "\<forall>t \<in> set ts. e \<in> set (snd (snd t)) \<longrightarrow> fst (snd t) = p \<Longrightarrow>
     position (fold (\<lambda>t h1. fold (set_position (fst (snd t))) (snd (snd t)) h1) ts h e)
       = (if \<exists>t \<in> set ts. e \<in> set (snd (snd t)) then p else position (h e))"
  for ts :: "(int \<times> pos option \<times> ref list) list"
  by (induction ts arbitrary: h) (simp_all add: reconcile_bucket_position)

lemma reconcile_position:
  assumes "wf_cmap m" "occurs_once m e l p"
  shows "position (reconcile m h e) = p"
proof -
  have all: "\<forall>t \<in> set (iterate m). e \<in> set (snd (snd t)) \<longrightarrow> fst (snd t) = p"
  proof (intro ballI impI)
    fix t assume t: "t \<in> set (iterate m)" and e: "e \<in> set (snd (snd t))"
    obtain l1 p1 xs where t1: "t = (l1, p1, xs)" by (cases t)
    from iterate_bucket[OF assms(1)] t t1 have "bucket m l1 p1 = xs" by simp
    with e t1 assms(2) show "fst (snd t) = p" by (auto simp: occurs_once_in_bucket)
  qed
  from assms(2) have in_b: "e \<in> set (bucket m l p)" by (simp add: occurs_once_in_bucket)
  then obtain bs where bs: "map_of m l = Some bs"
    by (cases "map_of m l") (auto simp: bucket_def)
  with in_b obtain xs where "map_of bs p = Some xs" "e \<in> set xs"
    by (cases "map_of bs p") (auto simp: bucket_def)
  with bs have "(l, p, xs) \<in> set (iterate m)" "e \<in> set xs"
    by (auto simp: iterate_def dest!: map_of_SomeD)
  then have ex: "\<exists>t \<in> set (iterate m). e \<in> set (snd (snd t))" by force
  show ?thesis
    using reconcile_position_aux[OF all, of h] ex by (simp add: reconcile_def)
qed

lemma move_objects_single_bucket:
  assumes wf: "wf_cmap (collision_map g)"
    and one: "distinct (map fst (move_requests g))"
    and before: "occurs_once (collision_map g) e (layer (collision (objects g e)))
                   (position (objects g e))"
    and run: "move_objects g = Some (g1, ns)"
  shows "occurs_once (collision_map g1) e (layer (collision (objects g1 e)))
           (position (objects g1 e))"
proof (cases "move_requests g = []")
  case True
  with run before show ?thesis by (simp add: move_objects_def)
next
  case False
  let ?h = "objects g" and ?l = "layer (collision (objects g e))"
  let ?m0 = "collision_map (drain g)"
  have h: "objects (drain g) = ?h" by (simp add: drain_fold drain_spec_def)
  from False run obtain m rbc u where
    loop: "resolve_loop ?h (get_rb_collisions ?h ?m0 None None True) [] [] ?m0 = Some (m, rbc, u)"
    and g1: "g1 = (drain g)\<lparr>collision_map := m, objects := reconcile m ?h\<rparr>"
    by (auto simp: move_objects_def h split: option.splits)
  have m0: "?m0 = foldl (apply_request ?h) (collision_map g) (rev (move_requests g))"
    by (simp add: drain_fold drain_spec_def)
  from one have "distinct (map fst (rev (move_requests g)))" by (simp add: rev_map[symmetric])
  with before have "\<exists>p. occurs_once
      (foldl (apply_request ?h) (collision_map g) (rev (move_requests g))) e ?l p"
    using occurs_once_foldl[of "rev (move_requests g)" "collision_map g" e ?h] by simp
  then have start: "wf_cmap ?m0 \<and> (\<exists>p. occurs_once ?m0 e ?l p)"
    using wf_cmap_drain[OF wf] by (simp add: m0)
  have "wf_cmap (fst (m, rbc, u)) \<and> (\<exists>p. occurs_once (fst (m, rbc, u)) e ?l p)"
    by (rule resolve_loop_invariant[OF loop, where Inv = "\<lambda>m rbc. wf_cmap m \<and> (\<exists>p. occurs_once m e ?l p)"])
       (use start in \<open>auto simp: wf_cmap_revert_first intro: occurs_once_revert_first\<close>)
  then obtain p where wfm: "wf_cmap m" and occ: "occurs_once m e ?l p" by auto
  from reconcile_position[OF wfm occ, of ?h] show ?thesis
    using occ by (simp add: g1 reconcile_collision)
qed

text \<open>
  The third object of the example, the only one with a request, is in one bucket before
  and after the phase, the one of its recorded position.
\<close>

lemma move_objects_single_bucket_example:
  "\<exists>g1 ns. move_objects pair_and_mover = Some (g1, ns)
      \<and> position (objects g1 2) = Some (4, 4)
      \<and> occurs_once (collision_map g1) 2 0 (Some (4, 4))"
proof -
  have w: "wf_cmap (collision_map pair_and_mover)" by code_simp
  have d: "distinct (map fst (move_requests pair_and_mover))" by code_simp
  have m: "collision_map pair_and_mover = [(0, [(Some (0, 0), [0, 1]), (Some (3, 3), [2])])]"
    by code_simp
  have l: "layer (collision (objects pair_and_mover 2)) = 0"
    and p: "position (objects pair_and_mover 2) = Some (3, 3)"
    by code_simp+
  have o: "occurs_once (collision_map pair_and_mover) 2
             (layer (collision (objects pair_and_mover 2))) (position (objects pair_and_mover 2))"
    unfolding l p m by (simp add: occurs_once_def bucket_def)
  from move_objects_returns[OF w] obtain g1 ns where r: "move_objects pair_and_mover = Some (g1, ns)"
    by auto
  have q: "map_option (\<lambda>r. (position (objects (fst r) 2), layer (collision (objects (fst r) 2))))
             (move_objects pair_and_mover) = Some (Some (4, 4), 0)"
    by code_simp
  from move_objects_single_bucket[OF w d o r] q r show ?thesis by simp
qed

section \<open>One iteration of the resolution loop, and its exit\<close>










section \<open>Termination of the search\<close>

lemma get_neighbors_grid: "set (get_neighbors p my mx) \<subseteq> grid my mx"
  by (cases p) (auto simp: get_neighbors_def grid_def)

lemma unseen_new:
  assumes "finite K" "n \<in> K" "cs n = None"
  shows "unseen K (cs(n \<mapsto> c)) < unseen K cs"
proof -
  have "K - dom (cs(n \<mapsto> c)) \<subset> K - dom cs" using assms(2,3) by auto
  then show ?thesis unfolding unseen_def using assms(1) by (intro psubset_card_mono) auto
qed

lemma unseen_old: "cs n = Some old \<Longrightarrow> unseen K (cs(n \<mapsto> c)) = unseen K cs"
  by (simp add: unseen_def insert_absorb domI)

lemma cost_sum_lower:
  assumes "finite K" "n \<in> K" "cs n = Some old" "0 \<le> c" "c < old"
  shows "cost_sum K (cs(n \<mapsto> c)) < cost_sum K cs"
proof -
  let ?f = "\<lambda>m k. case m k of None \<Rightarrow> 0 | Some c \<Rightarrow> nat c"
  have a: "cost_sum K cs = ?f cs n + (\<Sum>k\<in>K - {n}. ?f cs k)"
    unfolding cost_sum_def using assms(1,2) by (rule sum.remove)
  have b: "cost_sum K (cs(n \<mapsto> c)) = ?f (cs(n \<mapsto> c)) n + (\<Sum>k\<in>K - {n}. ?f (cs(n \<mapsto> c)) k)"
    unfolding cost_sum_def using assms(1,2) by (rule sum.remove)
  have c: "(\<Sum>k\<in>K - {n}. ?f (cs(n \<mapsto> c)) k) = (\<Sum>k\<in>K - {n}. ?f cs k)"
    by (rule sum.cong) auto
  show ?thesis using assms(3,4,5) by (simp add: a b c)
qed

lemma relax_all_progress:
  assumes "finite K" "set ns \<subseteq> K"
  shows "search_inv K (f, cm, cs) \<Longrightarrow> current \<in> dom cs \<Longrightarrow>
     \<exists>f1 cm1 cs1. relax_all current ns (f, cm, cs) = Inr (f1, cm1, cs1)
        \<and> search_inv K (f1, cm1, cs1)
        \<and> (unseen K cs1 < unseen K cs
            \<or> unseen K cs1 = unseen K cs \<and> cost_sum K cs1 < cost_sum K cs
            \<or> (f1, cm1, cs1) = (f, cm, cs))"
  using assms(2)
proof (induction ns arbitrary: f cm cs)
  case Nil
  then show ?case by simp
next
  case (Cons n ns)
  from Cons.prems obtain c where c: "cs current = Some c" by auto
  from Cons.prems c have c0: "0 \<le> c" by (cases current) (auto simp: search_inv_def)
  from Cons.prems have nK: "n \<in> K" and nsK: "set ns \<subseteq> K" by auto
  show ?case
  proof (cases "case cs n of None \<Rightarrow> True | Some old \<Rightarrow> c + 1 < old")
    case False
    from Cons.IH[OF Cons.prems(1,2) nsK] False c show ?thesis by simp
  next
    case True
    let ?f = "f @ [n]" and ?cm = "cm(n \<mapsto> Some current)" and ?cs = "cs(n \<mapsto> c + 1)"
    have inv: "search_inv K (?f, ?cm, ?cs)"
      using Cons.prems(1) nK c0 by (auto simp: search_inv_def)
    have cur: "current \<in> dom ?cs" using c by auto
    have less: "unseen K ?cs < unseen K cs
        \<or> unseen K ?cs = unseen K cs \<and> cost_sum K ?cs < cost_sum K cs"
    proof (cases "cs n")
      case None
      then show ?thesis using unseen_new[of K n cs "c + 1"] assms(1) nK by simp
    next
      case (Some old)
      with True have "c + 1 < old" by simp
      then show ?thesis
        using unseen_old[of cs n old K "c + 1"] cost_sum_lower[of K n cs old "c + 1"]
          assms(1) nK Some c0 by simp
    qed
    from Cons.IH[OF inv cur nsK] obtain f1 cm1 cs1 where
      r: "relax_all current ns (?f, ?cm, ?cs) = Inr (f1, cm1, cs1)"
      and i: "search_inv K (f1, cm1, cs1)"
      and m: "unseen K cs1 < unseen K ?cs
            \<or> unseen K cs1 = unseen K ?cs \<and> cost_sum K cs1 < cost_sum K ?cs
            \<or> (f1, cm1, cs1) = (?f, ?cm, ?cs)"
      by blast
    have "relax_all current (n # ns) (f, cm, cs) = Inr (f1, cm1, cs1)"
      using True c r by simp
    moreover have "unseen K cs1 < unseen K cs
            \<or> unseen K cs1 = unseen K cs \<and> cost_sum K cs1 < cost_sum K cs"
      using less m by auto
    ultimately show ?thesis using i by blast
  qed
qed

lemma min_list_in_set: "xs \<noteq> [] \<Longrightarrow> min_list xs \<in> set (xs :: pos list)"
  by (simp add: min_list_Min)

lemma search_returns:
  assumes "finite K" "grid my mx \<subseteq> K"
    and "search_inv K st"
  shows "\<exists>came. search my mx target st = Some (Inr came) \<and> dom came \<subseteq> K"
proof -
  have wf: "wf (inv_image (less_than <*lex*> less_than <*lex*> less_than) (search_measure K))"
    by (intro wf_inv_image wf_lex_prod wf_less_than)
  show ?thesis using assms(3)
  proof (induction st rule: wf_induct_rule[OF wf])
    case (1 st)
    obtain f cm cs where st: "st = (f, cm, cs)" by (cases st)
    show ?case
    proof (cases "f = []")
      case True
      then show ?thesis
        using "1.prems" by (subst search.simps) (simp add: st search_inv_def)
    next
      case False
      let ?cur = "min_list f"
      have cur_in: "?cur \<in> set f" using False by (rule min_list_in_set)
      show ?thesis
      proof (cases "?cur = target")
        case True
        then show ?thesis
          using "1.prems" False by (subst search.simps) (simp add: st search_inv_def)
      next
        case neq: False
        let ?f1 = "remove1 ?cur f"
        have inv1: "search_inv K (?f1, cm, cs)"
          using "1.prems" set_remove1_subset[of ?cur f] by (auto simp: st search_inv_def)
        have cur_dom: "?cur \<in> dom cs"
          using "1.prems" cur_in by (auto simp: st search_inv_def)
        have nb: "set (get_neighbors ?cur my mx) \<subseteq> K"
          using get_neighbors_grid assms(2) by blast
        from relax_all_progress[OF assms(1) nb inv1 cur_dom]
        obtain f2 cm2 cs2 where
          r: "relax_all ?cur (get_neighbors ?cur my mx) (?f1, cm, cs) = Inr (f2, cm2, cs2)"
          and i: "search_inv K (f2, cm2, cs2)"
          and m: "unseen K cs2 < unseen K cs
              \<or> unseen K cs2 = unseen K cs \<and> cost_sum K cs2 < cost_sum K cs
              \<or> (f2, cm2, cs2) = (?f1, cm, cs)"
          by blast
        have len: "length ?f1 < length f"
          using cur_in by (simp add: length_remove1) (cases f, auto)
        have "((f2, cm2, cs2), st)
            \<in> inv_image (less_than <*lex*> less_than <*lex*> less_than) (search_measure K)"
          using m len by (auto simp: st search_measure_def)
        from "1.IH"[OF this i] obtain came where
          "search my mx target (f2, cm2, cs2) = Some (Inr came)" "dom came \<subseteq> K" by blast
        then show ?thesis
          using False neq r by (subst search.simps) (simp add: st)
      qed
    qed
  qed
qed

lemma finite_grid: "finite (grid my mx)"
  by (simp add: grid_def)

section \<open>The claims\<close>

text \<open>
  C1. Claimed: after \<open>__move_objects\<close> every collider with a position is in exactly one
  bucket of the collision map, the bucket of its recorded position, also when two or
  more requests are queued for one object. The drain phase always removes the object
  from the bucket of its recorded position, which does not change during the drain, so
  the second request of an object leaves the entry made by the first in place. In the
  example a collider in exactly one bucket, \<open>(0, 0)\<close>, asks for \<open>(1, 1)\<close> and then
  for \<open>(2, 2)\<close>; afterwards it is in the buckets of \<open>(2, 2)\<close> and of \<open>(1, 1)\<close>, and
  its recorded position is \<open>(1, 1)\<close>. With at most one request for each object the phase
  does keep an object that occurs once, in the bucket of its recorded position, in that
  state (\<open>move_objects_single_bucket\<close>).
\<close>

theorem duplicate_requests_leave_two_buckets:
  "buckets_holding (collision_map twice_requested) 0 = [(0, Some (0, 0))]
   \<and> position (objects twice_requested 0) = Some (0, 0)
   \<and> map_option (\<lambda>r. (buckets_holding (collision_map (fst r)) 0, position (objects (fst r) 0)))
        (move_objects twice_requested)
     = Some ([(0, Some (2, 2)), (0, Some (1, 1))], Some (1, 1))"
  by code_simp

text \<open>
  C2. Claimed: for a target that cannot be reached in the bounded grid, in particular
  any target outside the bounds, \<open>pathfind\<close> terminates, does not raise and returns an
  explicit "no path" result. The search does terminate, for every start and target. For
  every target outside the bounds and different from the position of the object it ends
  with an empty frontier, and the walk back from the target then raises \<open>KeyError\<close> at
  \<open>came_from[current]\<close>.
\<close>

theorem pathfind_unreachable_raises:
  assumes "position (objects g e) = Some start"
    and "target \<notin> grid (max_y g) (max_x g)" and "target \<noteq> start"
  shows "pathfind g e target = Some (Inl KeyError)"
proof -
  let ?K = "insert start (grid (max_y g) (max_x g))"
  have "search_inv ?K ([start], [start \<mapsto> None], [start \<mapsto> 0])"
    by (auto simp: search_inv_def split: if_splits)
  from search_returns[OF _ _ this, of "max_y g" "max_x g" target]
  obtain came where s: "search (max_y g) (max_x g) target ([start], [start \<mapsto> None], [start \<mapsto> 0])
       = Some (Inr came)" and d: "dom came \<subseteq> ?K"
    using finite_grid by auto
  from d assms(2,3) have "came target = None" by auto
  then have "trace_back start came (Some target) [] = Some (Inl KeyError)"
    using assms(3) by (subst trace_back.simps) simp
  then show ?thesis using assms(1) s by (simp add: pathfind_def)
qed

text \<open>
  A screen of two rows and two columns, the object at \<open>(0, 0)\<close>, the target \<open>(5, 5)\<close>.
\<close>

theorem pathfind_unreachable_raises_witness:
  "position (objects (spawn_obj soft (Some (0, 0)) (init 2 2 0)) 0) = Some (0, 0)
   \<and> (5, 5) \<notin> grid (max_y (spawn_obj soft (Some (0, 0)) (init 2 2 0)))
                   (max_x (spawn_obj soft (Some (0, 0)) (init 2 2 0)))
   \<and> pathfind (spawn_obj soft (Some (0, 0)) (init 2 2 0)) 0 (5, 5) = Some (Inl KeyError)"
proof -
  let ?g = "spawn_obj soft (Some (0, 0)) (init 2 2 0)"
  have p: "position (objects ?g 0) = Some (0, 0)" by (simp add: spawn_obj_def init_def)
  have o: "(5, 5) \<notin> grid (max_y ?g) (max_x ?g)" by (simp add: spawn_obj_def init_def grid_def)
  show ?thesis using p o pathfind_unreachable_raises [OF p o] by simp
qed

text \<open>
  C3. Claimed: an iteration of the tick loop that comes less than \<open>frame_delay\<close> seconds
  after the last drawn frame skips the draw phase, so two draws are never closer than
  \<open>frame_delay\<close>. Nothing in the engine assigns \<open>last_frame_time\<close> after \<open>__init__\<close>
  set it to \<open>None\<close>: as long as the game's own update code leaves it alone, it stays
  \<open>None\<close>, \<open>__ready_for_next_frame\<close> answers \<open>True\<close> and every iteration that returns
  draws a frame, whatever the clock reading.
\<close>

theorem loop_always_draws:
  assumes "last_frame_time g = None"
    and "\<forall>s. last_frame_time (upd s) = last_frame_time s"
    and "loop upd t g = Some (g1, drew)"
  shows "drew \<and> last_frame_time g1 = None"
proof -
  from assms(3) obtain g2 ns where m: "move_objects (upd (g\<lparr>now := t\<rparr>)) = Some (g2, ns)"
    and d: "draw_frame g2 = (g1, drew)"
    by (auto simp: loop_def split: option.splits)
  from last_frame_time_move_objects[OF m] assms(1,2) have "last_frame_time g2 = None" by simp
  with d show ?thesis
    by (auto simp: draw_frame_def ready_for_next_frame_def draw_game_objects_def)
qed

text \<open>
  Two iterations at the same clock reading, no time apart: both draw a frame.
\<close>

theorem loop_always_draws_witness:
  "last_frame_time two_rigid = None
   \<and> loop (\<lambda>s. s) 5 two_rigid = Some (draw_game_objects (two_rigid\<lparr>now := 5\<rparr>), True)
   \<and> map_option snd (loop (\<lambda>s. s) 5 (draw_game_objects (two_rigid\<lparr>now := 5\<rparr>))) = Some True
   \<and> last_frame_time (draw_game_objects (two_rigid\<lparr>now := 5\<rparr>)) = None"
proof -
  have n: "last_frame_time two_rigid = None"
    by (simp add: two_rigid_def spawn_obj_def init_def)
  have q: "move_requests two_rigid = []"
    by (simp add: two_rigid_def spawn_obj_def init_def)
  have a: "loop (\<lambda>s. s) 5 two_rigid = Some (draw_game_objects (two_rigid\<lparr>now := 5\<rparr>), True)"
    using n q by (simp add: loop_def move_objects_def draw_frame_def ready_for_next_frame_def)
  have n1: "last_frame_time (draw_game_objects (two_rigid\<lparr>now := 5\<rparr>)) = None"
    using loop_always_draws [OF n _ a] by simp
  have q1: "move_requests (draw_game_objects (two_rigid\<lparr>now := 5\<rparr>)) = []"
    using q by (simp add: draw_game_objects_def)
  have b: "map_option snd (loop (\<lambda>s. s) 5 (draw_game_objects (two_rigid\<lparr>now := 5\<rparr>))) = Some True"
    using n1 q1 by (simp add: loop_def move_objects_def draw_frame_def ready_for_next_frame_def)
  show ?thesis
    using n a b n1 by simp
qed

text \<open>
  C4. Claimed: \<open>get_rb_collisions\<close> returns the same-layer rigidbody conflicts of size
  two or more: the full list when \<open>single\<close> is not requested, at most one otherwise,
  restricted to the layer and position given, layer 0 included. The code collects the
  list in \<open>rigidbody_collisions\<close> and then falls off the end of the function: for every
  heap, every collision map and every layer and position filter the call with
  \<open>single = False\<close> returns \<open>None\<close>. And the test \<open>if specific_layer and ...\<close> takes
  layer 0 for no layer: the call for layer 0 is the call for all layers.
\<close>

theorem get_rb_collisions_not_single_and_layer_zero:
  "get_rb_collisions h m sl sp False = None
   \<and> get_rb_collisions h m (Some 0) sp single = get_rb_collisions h m None sp single"
  by (simp add: get_rb_collisions_def rb_scan_not_single rb_scan_layer_zero)

text \<open>
  With two rigidbodies on one cell the query for a single conflict finds it, and the
  query for all conflicts returns \<open>None\<close>; with the two on layer 1, the query for
  layer 0 returns their conflict.
\<close>

theorem get_rb_collisions_not_single_and_layer_zero_witness:
  "get_rb_collisions (objects two_rigid) (collision_map two_rigid) None None True
     = Some (CollisionNT 0 (Some (0, 0)) [0, 1])
   \<and> get_rb_collisions (objects two_rigid) (collision_map two_rigid) None None False = None
   \<and> get_rb_collisions (objects two_rigid_layer1) (collision_map two_rigid_layer1)
        (Some 0) None True
     = Some (CollisionNT 1 (Some (0, 0)) [0, 1])"
proof -
  have a: "get_rb_collisions (objects two_rigid) (collision_map two_rigid) None None True
     = Some (CollisionNT 0 (Some (0, 0)) [0, 1])"
    by code_simp
  have b: "get_rb_collisions (objects two_rigid_layer1) (collision_map two_rigid_layer1)
        None None True
     = Some (CollisionNT 1 (Some (0, 0)) [0, 1])"
    by code_simp
  show ?thesis
    using a b
      get_rb_collisions_not_single_and_layer_zero
        [of "objects two_rigid" "collision_map two_rigid" None None]
      get_rb_collisions_not_single_and_layer_zero
        [of "objects two_rigid_layer1" "collision_map two_rigid_layer1" None None True]
    by simp
qed

text \<open>
  C5. Claimed: for a start and a target within bounds the returned path has as many
  steps as the Manhattan distance between them. The frontier orders the positions
  themselves, not their priorities, so the search expands the least tuple first and
  stops as soon as the target is taken out. On a grid of two rows and three columns,
  from \<open>(1, 2)\<close> to \<open>(1, 0)\<close>, at Manhattan distance 2, the path returned runs along
  row 0 and has four steps.
\<close>

theorem pathfind_detour:
  "pathfind (spawn_obj soft (Some (1, 2)) (init 2 3 0)) 0 (1, 0)
     = Some (Inr [(0, 2), (0, 1), (0, 0), (1, 0)])"
  by code_simp

text \<open>
  C6. The drain phase consumes the queued requests from the last queued to the first:
  it is \<open>drain_spec\<close>, so of two requests queued on an empty queue the second is applied
  first. Each request removes the object from the bucket of its recorded position and
  adds it to the requested bucket. The heap, and with it every position field, is the
  same after the drain as before, and the queue is empty. The resolution loop reads the
  heap and has no way to write it: when \<open>__move_objects\<close> returns, the heap is the one
  from before the phase with the positions set by \<open>reconcile\<close> from the final map.
\<close>

theorem drain_lifo:
  "drain g = drain_spec g \<and> objects (drain g) = objects g \<and> move_requests (drain g) = []
   \<and> (move_requests g = [] \<longrightarrow>
        collision_map (drain (move (move g a p) b q))
        = apply_request (objects g) (apply_request (objects g) (collision_map g) (b, q)) (a, p))
   \<and> (move_requests g \<noteq> [] \<and> move_objects g = Some (g1, ns) \<longrightarrow>
        objects g1 = reconcile (collision_map g1) (objects g))"
proof (intro conjI impI)
  show "drain g = drain_spec g" by (rule drain_fold)
  show "objects (drain g) = objects g" by (simp add: drain_fold drain_spec_def)
  show "move_requests (drain g) = []" by (simp add: drain_fold drain_spec_def)
next
  assume "move_requests g = []"
  then show "collision_map (drain (move (move g a p) b q))
        = apply_request (objects g) (apply_request (objects g) (collision_map g) (b, q)) (a, p)"
    by (simp add: drain_fold drain_spec_def move_def)
next
  assume "move_requests g \<noteq> [] \<and> move_objects g = Some (g1, ns)"
  then show "objects g1 = reconcile (collision_map g1) (objects g)"
    by (auto simp: move_objects_def drain_fold drain_spec_def split: option.splits)
qed

text \<open>
  An object at \<open>(0, 0)\<close> with the requests \<open>(1, 1)\<close> and then \<open>(2, 2)\<close>: the bucket of
  \<open>(2, 2)\<close> is created before the bucket of \<open>(1, 1)\<close>, and the position field still
  says \<open>(0, 0)\<close> after the drain; \<open>reconcile\<close> then sets it.
\<close>

theorem drain_lifo_witness:
  "collision_map (drain twice_requested)
     = [(0, [(Some (0, 0), []), (Some (2, 2), [0]), (Some (1, 1), [0])])]
   \<and> position (objects (drain twice_requested) 0) = Some (0, 0)
   \<and> map_option (\<lambda>r. position (objects (fst r) 0)) (move_objects twice_requested)
       = Some (Some (1, 1))"
proof -
  have d: "drain twice_requested = drain_spec twice_requested"
    using drain_lifo [of twice_requested] by (rule conjunct1)
  have m: "map_option (\<lambda>r. position (objects (fst r) 0)) (move_objects twice_requested)
       = Some (Some (1, 1))"
    by code_simp
  have c: "collision_map (drain twice_requested)
     = [(0, [(Some (0, 0), []), (Some (2, 2), [0]), (Some (1, 1), [0])])]
   \<and> position (objects (drain twice_requested) 0) = Some (0, 0)"
    unfolding d
    by (simp add: drain_spec_def apply_request_def twice_requested_def move_def spawn_obj_def
        init_def soft_def add_obj_def remove_obj_def dd_modify_def)
  show ?thesis using c m by simp
qed







text \<open>
  C9. With an empty request queue \<open>__move_objects\<close> returns at once: the game state,
  with every position field and every bucket, is unchanged and no notification is
  sent.
\<close>

theorem move_objects_empty_queue: "move_requests g = [] \<Longrightarrow> move_objects g = Some (g, [])"
  by (simp add: move_objects_def)

text \<open>
  Also a conflict that is present, as with two rigidbodies on one cell, is neither
  resolved nor notified.
\<close>

theorem move_objects_empty_queue_witness:
  "move_requests two_rigid = []
   \<and> get_rb_collisions (objects two_rigid) (collision_map two_rigid) None None True
       = Some (CollisionNT 0 (Some (0, 0)) [0, 1])
   \<and> move_objects two_rigid = Some (two_rigid, [])"
proof -
  have e: "move_requests two_rigid = []"
    by (simp add: two_rigid_def spawn_obj_def init_def)
  have c: "get_rb_collisions (objects two_rigid) (collision_map two_rigid) None None True
       = Some (CollisionNT 0 (Some (0, 0)) [0, 1])"
    by code_simp
  show ?thesis using e c move_objects_empty_queue [OF e] by simp
qed

text \<open>
  C10. \<open>pathfind\<close> with the target equal to the current position of the object returns
  the empty path, for every position, within bounds or not: the first position taken
  from the frontier is the target.
\<close>

theorem pathfind_to_own_position:
  "position (objects g e) = Some s \<Longrightarrow> pathfind g e s = Some (Inr [])"
  by (simp add: pathfind_def search.simps trace_back.simps)

text \<open>
  An object at \<open>(3, 4)\<close> on a screen of ten rows and ten columns.
\<close>

theorem pathfind_to_own_position_witness:
  "position (objects (spawn_obj soft (Some (3, 4)) (init 10 10 0)) 0) = Some (3, 4)
   \<and> pathfind (spawn_obj soft (Some (3, 4)) (init 10 10 0)) 0 (3, 4) = Some (Inr [])"
proof -
  have p: "position (objects (spawn_obj soft (Some (3, 4)) (init 10 10 0)) 0) = Some (3, 4)"
    by (simp add: spawn_obj_def init_def)
  show ?thesis using p pathfind_to_own_position [OF p] by simp
qed

end
